theory Spec2Isabelle
  imports Main "HOL-Library.Sublist" "HOL-Library.List_Lexorder" "HOL-Library.Char_ord"
begin

section \<open>Data model\<close>

text \<open>
  Keys are Python strings: sequences of characters compared lexicographically, a proper
  prefix being smaller. The character type is left open (any linear order), so that the
  development covers byte strings and strings of code points alike. Serialized objects
  and content hashes are byte strings.
\<close>

type_synonym bytes = string
type_synonym hash = string

datatype py_error = ValueError | IndexError | KeyError | AttributeError
  | CorruptionError | DecodeError

text \<open>\<open>struct.TreeLeaf\<close> and \<open>struct.TreeNode\<close>; a child hash of a node may be \<open>None\<close>.\<close>

datatype 'a node =
    TreeLeaf "'a list" hash
  | TreeNode "'a list" "hash option" "hash option"

text \<open>Python truth value of a hash attribute: \<open>None\<close> and the empty string are false.\<close>

fun truthy :: "hash option \<Rightarrow> bool" where
  "truthy None = False"
| "truthy (Some h) = (h \<noteq> [])"

subsection \<open>Object store and codec\<close>

text \<open>
  Modelled from the spec: the object store (\<open>store.py\<close> is not part of the sources).
  \<open>hash_object\<close> is the store's deterministic content hash, \<open>backend\<close> the stored
  blocks, \<open>check_default\<close> the default of the \<open>check_integrity\<close> argument of \<open>get\<close>.
\<close>

record store =
  hash_object :: "bytes \<Rightarrow> hash"
  backend :: "hash \<rightharpoonup> bytes"
  check_default :: bool

text \<open>
  Modelled from the spec: \<open>add(bytes) -> Hash\<close> persists the bytes under their hash
  and returns the hash.
\<close>

definition store_add :: "store \<Rightarrow> bytes \<Rightarrow> hash \<times> store" where
  "store_add S serialized_obj =
     (let obj_hash = hash_object S serialized_obj
      in (obj_hash, S\<lparr>backend := (backend S)(obj_hash \<mapsto> serialized_obj)\<rparr>))"

text \<open>
  Modelled from the spec: \<open>get(hash, checkIntegrity) -> bytes | absent\<close>; with
  \<open>checkIntegrity\<close> the retrieved bytes are hashed again and a mismatch raises.
\<close>

definition store_get :: "store \<Rightarrow> hash \<Rightarrow> bool \<Rightarrow> py_error + bytes option" where
  "store_get S obj_hash check_integrity =
     (case backend S obj_hash of
        None \<Rightarrow> Inr None
      | Some serialized_obj \<Rightarrow>
          if check_integrity \<and> hash_object S serialized_obj \<noteq> obj_hash
          then Inl CorruptionError
          else Inr (Some serialized_obj))"

text \<open>
  Modelled from the spec: the codec of \<open>pack.py\<close> (not part of the sources), taken as a
  parameter. \<open>decode\<close> either returns a node or raises.
\<close>

record 'a pack =
  encode :: "'a node \<Rightarrow> bytes"
  decode :: "bytes \<Rightarrow> py_error + 'a node"

subsection \<open>Tree view and builder\<close>

record 'a tree =
  object_store :: store
  root :: hash
  cache :: "hash \<rightharpoonup> 'a node"

text \<open>
  \<open>TreeBuilder.items\<close> is a Python dict: keys are distinct and iteration follows the
  order of first insertion. It is an association list here.
\<close>

record 'a builder =
  b_object_store :: store
  items :: "('a list \<times> bytes) list"

definition TreeBuilder_init :: "store \<Rightarrow> 'a builder" where
  "TreeBuilder_init S = \<lparr>b_object_store = S, items = []\<rparr>"

text \<open>\<open>self.items[lookup_key] = value\<close>: overwrite in place, or append a new key.\<close>

fun dict_set :: "'k \<Rightarrow> 'v \<Rightarrow> ('k \<times> 'v) list \<Rightarrow> ('k \<times> 'v) list" where
  "dict_set k v [] = [(k, v)]"
| "dict_set k v ((k', v') # ps) =
     (if k' = k then (k, v) # ps else (k', v') # dict_set k v ps)"

definition setitem :: "'a builder \<Rightarrow> 'a list \<Rightarrow> bytes \<Rightarrow> 'a builder" where
  "setitem self lookup_key v = self\<lparr>items := dict_set lookup_key v (items self)\<rparr>"

section \<open>Tree: lookup and proof traversal\<close>

definition get_node_by_hash ::
  "'a pack \<Rightarrow> 'a tree \<Rightarrow> hash \<Rightarrow> (py_error + 'a node option) \<times> 'a tree" where
  "get_node_by_hash P self node_hash =
     (case cache self node_hash of
        Some n \<Rightarrow> (Inr (Some n), self)
      | None \<Rightarrow>
         (case store_get (object_store self) node_hash True of
            Inl e \<Rightarrow> (Inl e, self)
          | Inr None \<Rightarrow> (Inr None, self)
          | Inr (Some serialized_node) \<Rightarrow>
             (case decode P serialized_node of
                Inl e \<Rightarrow> (Inl e, self)
              | Inr n \<Rightarrow> (Inr (Some n), self\<lparr>cache := (cache self)(node_hash \<mapsto> n)\<rparr>))))"

text \<open>
  \<open>if current_node.left_hash: left_child = self.get_node_by_hash(...)\<close>, the child
  staying \<open>None\<close> otherwise.
\<close>

definition resolve_child ::
  "'a pack \<Rightarrow> 'a tree \<Rightarrow> hash option \<Rightarrow> (py_error + 'a node option) \<times> 'a tree" where
  "resolve_child P self h =
     (if truthy h then get_node_by_hash P self (the h) else (Inr None, self))"

fun opt_list :: "'b option \<Rightarrow> 'b list" where
  "opt_list None = []"
| "opt_list (Some x) = [x]"

text \<open>
  The \<open>while\<close> loop of \<open>get_inclusion_proof\<close>. A current node that is \<open>None\<close> (an
  unresolved child) is appended to the path and then raises \<open>AttributeError\<close> at
  \<open>current_node.pivot_prefix\<close>. A loop that never ends has the value \<open>None\<close>.
\<close>

partial_function (option) proof_loop ::
  "'a::linorder pack \<Rightarrow> 'a list \<Rightarrow> 'a tree \<Rightarrow> 'a node option \<Rightarrow> 'a node list \<Rightarrow> 'a node list
    \<Rightarrow> ((py_error + 'a node list \<times> 'a node list) \<times> 'a tree) option" where
  "proof_loop P lookup_key self current_node path_nodes closure_nodes =
     (case current_node of
        None \<Rightarrow> Some (Inl AttributeError, self)
      | Some (TreeLeaf k ph) \<Rightarrow>
          Some (Inr (path_nodes @ [TreeLeaf k ph], closure_nodes), self)
      | Some (TreeNode pivot_prefix lh rh) \<Rightarrow>
         (case resolve_child P self lh of
            (Inl e, self1) \<Rightarrow> Some (Inl e, self1)
          | (Inr left_child, self1) \<Rightarrow>
             (case resolve_child P self1 rh of
                (Inl e, self2) \<Rightarrow> Some (Inl e, self2)
              | (Inr right_child, self2) \<Rightarrow>
                  if lookup_key < pivot_prefix
                  then proof_loop P lookup_key self2 left_child
                         (path_nodes @ [TreeNode pivot_prefix lh rh])
                         (closure_nodes @ opt_list right_child)
                  else proof_loop P lookup_key self2 right_child
                         (path_nodes @ [TreeNode pivot_prefix lh rh])
                         (closure_nodes @ opt_list left_child))))"

declare proof_loop.simps [code]

definition root_node :: "'a pack \<Rightarrow> 'a tree \<Rightarrow> (py_error + 'a node option) \<times> 'a tree" where
  "root_node P self = get_node_by_hash P self (root self)"

definition get_inclusion_proof ::
  "'a::linorder pack \<Rightarrow> 'a tree \<Rightarrow> 'a list
    \<Rightarrow> ((py_error + 'a node list \<times> 'a node list) \<times> 'a tree) option" where
  "get_inclusion_proof P self lookup_key =
     (case root_node P self of
        (Inl e, self1) \<Rightarrow> Some (Inl e, self1)
      | (Inr current_node, self1) \<Rightarrow> proof_loop P lookup_key self1 current_node [] [])"

text \<open>
  \<open>Tree.__getitem__\<close>. The lookup returns what the store returns for the payload hash
  (possibly \<open>None\<close>), or raises \<open>KeyError\<close>.
\<close>

definition getitem ::
  "'a::linorder pack \<Rightarrow> 'a tree \<Rightarrow> 'a list \<Rightarrow> ((py_error + bytes option) \<times> 'a tree) option" where
  "getitem P self lookup_key =
     (case get_inclusion_proof P self lookup_key of
        None \<Rightarrow> None
      | Some (Inl e, self1) \<Rightarrow> Some (Inl e, self1)
      | Some (Inr (path, closure), self1) \<Rightarrow>
          if path \<noteq> [] then
            (case last path of
               TreeLeaf k ph \<Rightarrow>
                 if k = lookup_key then
                   (case store_get (object_store self1) ph (check_default (object_store self1)) of
                      Inl e \<Rightarrow> Some (Inl e, self1)
                    | Inr serialized_payload \<Rightarrow> Some (Inr serialized_payload, self1))
                 else Some (Inl KeyError, self1)
             | TreeNode _ _ _ \<Rightarrow> Some (Inl AttributeError, self1))
          else Some (Inl KeyError, self1))"

text \<open>\<open>Tree.__contains__\<close>: only \<open>KeyError\<close> is caught.\<close>

definition contains ::
  "'a::linorder pack \<Rightarrow> 'a tree \<Rightarrow> 'a list \<Rightarrow> ((py_error + bool) \<times> 'a tree) option" where
  "contains P self lookup_key =
     (case getitem P self lookup_key of
        None \<Rightarrow> None
      | Some (Inr _, self1) \<Rightarrow> Some (Inr True, self1)
      | Some (Inl e, self1) \<Rightarrow>
          if e = KeyError then Some (Inr False, self1) else Some (Inl e, self1))"

section \<open>TreeBuilder: construction\<close>

text \<open>
  Python's \<open>os.path.commonprefix\<close>: the empty string for an empty list, and otherwise the
  scan of the smallest string \<open>s1\<close> against the largest \<open>s2\<close>, returning \<open>s1[:i]\<close> at the
  first index where they differ. Reading \<open>s2[i]\<close> beyond its end raises \<open>IndexError\<close>.
\<close>

fun py_min :: "'b::linorder list \<Rightarrow> 'b" where
  "py_min (x # xs) = fold (\<lambda>y acc. if y < acc then y else acc) xs x"
| "py_min [] = undefined"

fun py_max :: "'b::linorder list \<Rightarrow> 'b" where
  "py_max (x # xs) = fold (\<lambda>y acc. if acc < y then y else acc) xs x"
| "py_max [] = undefined"

fun commonprefix_scan :: "'b list \<Rightarrow> 'b list \<Rightarrow> py_error + 'b list" where
  "commonprefix_scan [] s2 = Inr []"
| "commonprefix_scan (c # s1) [] = Inl IndexError"
| "commonprefix_scan (c # s1) (d # s2) =
     (if c \<noteq> d then Inr []
      else (case commonprefix_scan s1 s2 of Inl e \<Rightarrow> Inl e | Inr p \<Rightarrow> Inr (c # p)))"

definition commonprefix :: "'b::linorder list list \<Rightarrow> py_error + 'b list" where
  "commonprefix m =
     (if m = [] then Inr [] else commonprefix_scan (py_min m) (py_max m))"

fun get_node_key :: "'a node \<Rightarrow> 'a list" where
  "get_node_key (TreeLeaf k ph) = k"
| "get_node_key (TreeNode p lh rh) = p"

text \<open>\<open>TreeBuilder._make_subtree\<close>, the object store being that of the builder.\<close>

function make_subtree ::
  "'a::linorder pack \<Rightarrow> store \<Rightarrow> ('a list \<times> bytes) list \<Rightarrow> py_error + 'a node list" where
  "make_subtree P S its =
     (if length its = 0 then Inl ValueError
      else if length its = 1 then
        (case its of
           (key, serialized_obj) # _ \<Rightarrow> Inr [TreeLeaf key (hash_object S serialized_obj)]
         | [] \<Rightarrow> Inl ValueError)
      else
        (let middle = length its div 2;
             (pivot_prefix, pivot_obj) = its ! middle;
             left_partition = take middle its;
             right_partition = drop middle its
         in case make_subtree P S left_partition of
              Inl e \<Rightarrow> Inl e
            | Inr left_subtree_nodes \<Rightarrow>
             (case make_subtree P S right_partition of
                Inl e \<Rightarrow> Inl e
              | Inr right_subtree_nodes \<Rightarrow>
               (case left_subtree_nodes of
                  [] \<Rightarrow> Inl IndexError
                | left_child # _ \<Rightarrow>
                 (case right_subtree_nodes of
                    [] \<Rightarrow> Inl IndexError
                  | right_child # _ \<Rightarrow>
                   (case commonprefix
                           ([pivot_prefix]
                            @ (if left_subtree_nodes \<noteq> [] then [get_node_key left_child] else [])
                            @ (if right_subtree_nodes \<noteq> [] then [get_node_key right_child] else [])) of
                      Inl e \<Rightarrow> Inl e
                    | Inr common_prefix \<Rightarrow>
                       (let pivot_prefix' = take (max 1 (length common_prefix + 1)) pivot_prefix;
                            left_hash = Some (hash_object S (encode P left_child));
                            right_hash = Some (hash_object S (encode P right_child));
                            pivot_node = TreeNode pivot_prefix' left_hash right_hash
                        in Inr ([pivot_node] @ left_subtree_nodes @ right_subtree_nodes))))))))"
  by pat_completeness auto
termination
proof -
  have shorter: "length its - length its div 2 < length its"
    if "its \<noteq> []" "length its \<noteq> Suc 0" for its :: "('a list \<times> bytes) list"
  proof -
    from that have "length its \<noteq> 0" "length its \<noteq> 1" by auto
    then have "2 \<le> length its" by arith
    then show ?thesis by arith
  qed
  show ?thesis
    by (relation "measure (\<lambda>(P, S, its). length its)") (auto simp: shorter)
qed

text \<open>The loops of \<open>commit\<close>: every serialized object of a list is added to the store.\<close>

definition add_all :: "store \<Rightarrow> bytes list \<Rightarrow> store" where
  "add_all S xs = fold (\<lambda>serialized_obj S'. snd (store_add S' serialized_obj)) xs S"

text \<open>
  \<open>TreeBuilder.commit\<close>. The builder shares its object store with the returned tree; the
  store after the call is returned with the builder, also when the call raises.
\<close>

definition commit :: "'a::linorder pack \<Rightarrow> 'a builder \<Rightarrow> (py_error + 'a tree) \<times> 'a builder" where
  "commit P self =
     (let its = sort_key fst (items self)
      in case make_subtree P (b_object_store self) its of
           Inl e \<Rightarrow> (Inl e, self)
         | Inr nodes \<Rightarrow>
            (let S1 = add_all (b_object_store self) (map (encode P) nodes);
                 S2 = add_all S1 (map snd (items self));
                 self' = self\<lparr>b_object_store := S2\<rparr>
             in case nodes of
                  [] \<Rightarrow> (Inl IndexError, self')
                | root_nd # _ \<Rightarrow>
                    (Inr \<lparr>object_store = S2,
                          root = hash_object S2 (encode P root_nd),
                          cache = Map.empty\<rparr>, self')))"

text \<open>A builder populated by a sequence of assignments, starting from an empty one.\<close>

definition stage :: "store \<Rightarrow> ('a list \<times> bytes) list \<Rightarrow> 'a builder" where
  "stage S kvs = foldl (\<lambda>self (k, v). setitem self k v) (TreeBuilder_init S) kvs"

section \<open>The traversal as the specification words it\<close>

text \<open>
  What a hash resolves to in a tree view, without the update of the cache:
  the first component of \<open>get_node_by_hash\<close>.
\<close>

definition resolve :: "'a pack \<Rightarrow> 'a tree \<Rightarrow> hash \<Rightarrow> py_error + 'a node option" where
  "resolve P self h = fst (get_node_by_hash P self h)"

definition resolve_opt :: "(hash \<Rightarrow> py_error + 'a node option) \<Rightarrow> hash option \<Rightarrow> py_error + 'a node option" where
  "resolve_opt res h = (if truthy h then res (the h) else Inr None)"

text \<open>
  The descent of the specification, from a node down to a leaf: at an internal node, a
  key below the pivot goes left and the right child, if resolved, joins the closure;
  any other key goes right and the left child joins the closure; a leaf ends the path.
\<close>

inductive proof_walk ::
  "(hash \<Rightarrow> py_error + 'a::linorder node option) \<Rightarrow> 'a list
     \<Rightarrow> 'a node \<Rightarrow> 'a node list \<Rightarrow> 'a node list \<Rightarrow> bool"
  for res :: "hash \<Rightarrow> py_error + 'a node option" and lookup_key :: "'a list" where
  walk_leaf: "proof_walk res lookup_key (TreeLeaf k ph) [TreeLeaf k ph] []"
| walk_left:
    "lookup_key < pivot \<Longrightarrow>
     resolve_opt res lh = Inr (Some l) \<Longrightarrow> resolve_opt res rh = Inr right_child \<Longrightarrow>
     proof_walk res lookup_key l path closure \<Longrightarrow>
     proof_walk res lookup_key (TreeNode pivot lh rh)
       (TreeNode pivot lh rh # path) (opt_list right_child @ closure)"
| walk_right:
    "\<not> lookup_key < pivot \<Longrightarrow>
     resolve_opt res lh = Inr left_child \<Longrightarrow> resolve_opt res rh = Inr (Some r) \<Longrightarrow>
     proof_walk res lookup_key r path closure \<Longrightarrow>
     proof_walk res lookup_key (TreeNode pivot lh rh)
       (TreeNode pivot lh rh # path) (opt_list left_child @ closure)"

code_pred proof_walk .

section \<open>A concrete store, codec and builder\<close>

text \<open>
  A codec for nodes with byte-string keys: strings carry their length in unary, an
  absent hash is \<open>-\<close>. The hash of the example store prefixes \<open>#\<close> to the bytes: it is
  never empty and has no collisions.
\<close>

fun enc_str :: "string \<Rightarrow> string" where
  "enc_str s = replicate (length s) (CHR ''1'') @ CHR ''0'' # s"

fun enc_opt :: "string option \<Rightarrow> string" where
  "enc_opt None = ''-''"
| "enc_opt (Some h) = CHR ''+'' # enc_str h"

fun ex_encode :: "char node \<Rightarrow> bytes" where
  "ex_encode (TreeLeaf k ph) = CHR ''L'' # enc_str k @ ph"
| "ex_encode (TreeNode p lh rh) = CHR ''N'' # enc_str p @ enc_opt lh @ enc_opt rh"

fun read_str :: "nat \<Rightarrow> string \<Rightarrow> (string \<times> string) option" where
  "read_str n [] = None"
| "read_str n (c # cs) =
     (if c = CHR ''1'' then read_str (Suc n) cs
      else if c = CHR ''0'' \<and> n \<le> length cs then Some (take n cs, drop n cs) else None)"

fun read_opt :: "string \<Rightarrow> (string option \<times> string) option" where
  "read_opt [] = None"
| "read_opt (c # cs) =
     (if c = CHR ''-'' then Some (None, cs)
      else if c = CHR ''+'' then map_option (\<lambda>(h, r). (Some h, r)) (read_str 0 cs)
      else None)"

fun ex_decode :: "bytes \<Rightarrow> py_error + char node" where
  "ex_decode [] = Inl DecodeError"
| "ex_decode (c # cs) =
     (if c = CHR ''L'' then
        (case read_str 0 cs of
           None \<Rightarrow> Inl DecodeError
         | Some (k, ph) \<Rightarrow> Inr (TreeLeaf k ph))
      else if c = CHR ''N'' then
        (case read_str 0 cs of
           None \<Rightarrow> Inl DecodeError
         | Some (p, r1) \<Rightarrow>
            (case read_opt r1 of
               None \<Rightarrow> Inl DecodeError
             | Some (lh, r2) \<Rightarrow>
                (case read_opt r2 of
                   None \<Rightarrow> Inl DecodeError
                 | Some (rh, r3) \<Rightarrow>
                     if r3 = [] then Inr (TreeNode p lh rh) else Inl DecodeError)))
      else Inl DecodeError)"

definition ex_pack :: "char pack" where
  "ex_pack = \<lparr>encode = ex_encode, decode = ex_decode\<rparr>"

definition ex_hash :: "bytes \<Rightarrow> hash" where
  "ex_hash b = CHR ''#'' # b"

definition ex_store :: store where
  "ex_store = \<lparr>hash_object = ex_hash, backend = Map.empty, check_default = True\<rparr>"

text \<open>The builder after \<open>b['c'] = b'v3'; b['ba'] = b'v1'; b['bb'] = b'v2'\<close>.\<close>

definition ex_builder :: "char builder" where
  "ex_builder = stage ex_store [(''c'', ''v3''), (''ba'', ''v1''), (''bb'', ''v2'')]"

text \<open>Its items in key order, and the nodes that \<open>_make_subtree\<close> builds from them.\<close>

definition ex_items :: "(string \<times> bytes) list" where
  "ex_items = [(''ba'', ''v1''), (''bb'', ''v2''), (''c'', ''v3'')]"

definition ex_nodes :: "char node list" where
  "ex_nodes =
     [TreeNode ''b'' (Some ''#L110ba#v1'')
        (Some ''#N10c+11111111110#L110bb#v2+111111110#L10c#v3''),
      TreeLeaf ''ba'' ''#v1'',
      TreeNode ''c'' (Some ''#L110bb#v2'') (Some ''#L10c#v3''),
      TreeLeaf ''bb'' ''#v2'',
      TreeLeaf ''c'' ''#v3'']"

text \<open>
  Items in key order that share prefixes: the right half \<open>ab\<close>, \<open>abcd\<close> becomes an
  internal node with the cut pivot \<open>abc\<close>.
\<close>

definition ex_items2 :: "(string \<times> bytes) list" where
  "ex_items2 = [(''aa'', ''v1''), (''ab'', ''v2''), (''abcd'', ''v3'')]"

definition ex_tree :: "char tree" where
  "ex_tree =
     (case fst (commit ex_pack ex_builder) of
        Inr t \<Rightarrow> t
      | Inl e \<Rightarrow> \<lparr>object_store = ex_store, root = [], cache = Map.empty\<rparr>)"

section \<open>Committing an empty builder\<close>

text \<open>
  Claim C7. \<open>commit\<close> on a builder with no pending entry raises (\<open>ValueError\<close>, from
  \<open>_make_subtree\<close>), returns no tree, and leaves the builder and its object store as
  they were.
\<close>

theorem commit_empty_fails:
  assumes "items self = []"
  shows "commit P self = (Inl ValueError, self)"
  using assms by (simp add: commit_def)

theorem commit_empty_fails_witness:
  "items (TreeBuilder_init ex_store :: char builder) = []
   \<and> commit ex_pack (TreeBuilder_init ex_store) = (Inl ValueError, TreeBuilder_init ex_store)"
proof -
  have h: "items (TreeBuilder_init ex_store :: char builder) = []"
    by (simp add: TreeBuilder_init_def)
  from commit_empty_fails [OF h] h show ?thesis by blast
qed

section \<open>The common prefix\<close>

text \<open>
  The scan of the smallest against the largest string never runs out of range, and its
  result is the longest prefix shared by all strings of the list.
\<close>

lemma py_min_Min: "m \<noteq> [] \<Longrightarrow> py_min m = Min (set (m :: 'b::linorder list))"
proof (cases m)
  case (Cons x xs)
  have "(\<lambda>y acc. if y < acc then y else acc) = (min :: 'b \<Rightarrow> 'b \<Rightarrow> 'b)"
    by (intro ext) (auto simp: min_def)
  moreover have "fold min xs x = Min (set (x # xs))" by (rule Min.set_eq_fold [symmetric])
  ultimately show ?thesis using Cons by (simp del: set_simps)
qed simp

lemma py_max_Max: "m \<noteq> [] \<Longrightarrow> py_max m = Max (set (m :: 'b::linorder list))"
proof (cases m)
  case (Cons x xs)
  have "(\<lambda>y acc. if acc < y then y else acc) = (max :: 'b \<Rightarrow> 'b \<Rightarrow> 'b)"
    by (intro ext) (auto simp: max_def)
  moreover have "fold max xs x = Max (set (x # xs))" by (rule Max.set_eq_fold [symmetric])
  ultimately show ?thesis using Cons by (simp del: set_simps)
qed simp

lemma commonprefix_scan_le:
  "(s1 :: 'b::linorder list) \<le> s2 \<Longrightarrow> commonprefix_scan s1 s2 = Inr (longest_common_prefix s1 s2)"
  by (induction s1 s2 rule: commonprefix_scan.induct) auto

lemma prefix_between:
  "prefix p s1 \<Longrightarrow> prefix p s2 \<Longrightarrow> s1 \<le> s \<Longrightarrow> s \<le> s2 \<Longrightarrow> prefix p (s :: 'b::linorder list)"
proof (induction p arbitrary: s1 s2 s)
  case Nil
  then show ?case by simp
next
  case (Cons c p)
  from Cons.prems(1) obtain t1 where s1: "s1 = c # t1" and p1: "prefix p t1"
    by (cases s1) simp_all
  from Cons.prems(2) obtain t2 where s2: "s2 = c # t2" and p2: "prefix p t2"
    by (cases s2) simp_all
  from Cons.prems(3) s1 obtain d t where s: "s = d # t" by (cases s) simp_all
  from Cons.prems(3,4) have "c # t1 \<le> d # t" "d # t \<le> c # t2"
    unfolding s1 s2 s by simp_all
  then have "d = c" "t1 \<le> t" "t \<le> t2" by (auto simp: not_less_iff_gr_or_eq)
  with Cons.IH [OF p1 p2] s show ?case by simp
qed

lemma commonprefix_longest:
  assumes "m \<noteq> []"
  shows "\<exists>cp. commonprefix (m :: 'b::linorder list list) = Inr cp \<and> (\<forall>s\<in>set m. prefix cp s)
           \<and> (\<forall>q. (\<forall>s\<in>set m. prefix q s) \<longrightarrow> prefix q cp)"
proof -
  let ?s1 = "Min (set m)" and ?s2 = "Max (set m)"
  let ?cp = "longest_common_prefix ?s1 ?s2"
  from assms have in1: "?s1 \<in> set m" and in2: "?s2 \<in> set m" by auto
  have le: "?s1 \<le> ?s2" using assms by (simp add: Min_le_iff)
  have cp: "commonprefix m = Inr ?cp"
    using assms le by (simp add: commonprefix_def py_min_Min py_max_Max commonprefix_scan_le)
  have all: "prefix ?cp s" if "s \<in> set m" for s
    by (rule prefix_between [OF longest_common_prefix_prefix1 longest_common_prefix_prefix2])
       (use that in auto)
  have mx: "prefix q ?cp" if "\<forall>s\<in>set m. prefix q s" for q
    using that in1 in2 by (intro longest_common_prefix_max_prefix) blast+
  from cp all mx show ?thesis by blast
qed

section \<open>The recursive construction\<close>

declare make_subtree.simps [simp del]

lemma make_subtree_Nil: "make_subtree P S [] = Inl ValueError"
  by (simp add: make_subtree.simps)

lemma make_subtree_single:
  "make_subtree P S [(k, v)] = Inr [TreeLeaf k (hash_object S v)]"
  by (simp add: make_subtree.simps)

lemma make_subtree_split:
  assumes "2 \<le> length its"
    and "make_subtree P S (take (length its div 2) its) = Inr (l # ls)"
    and "make_subtree P S (drop (length its div 2) its) = Inr (r # rs)"
    and "commonprefix [fst (its ! (length its div 2)), get_node_key l, get_node_key r] = Inr cp"
  shows "make_subtree P S its =
           Inr (TreeNode (take (max 1 (length cp + 1)) (fst (its ! (length its div 2))))
                  (Some (hash_object S (encode P l))) (Some (hash_object S (encode P r)))
                # (l # ls) @ (r # rs))"
proof -
  from assms(1) have "length its \<noteq> 0" "length its \<noteq> 1" by auto
  moreover obtain k v where "its ! (length its div 2) = (k, v)" by force
  ultimately show ?thesis
    using assms(2-4)
    by (subst make_subtree.simps) (simp add: Let_def)
qed

lemma halves_induct [consumes 1, case_names single split]:
  assumes "its \<noteq> []"
    and "\<And>x. Q [x]"
    and "\<And>its. 2 \<le> length its \<Longrightarrow> Q (take (length its div 2) its)
            \<Longrightarrow> Q (drop (length its div 2) its) \<Longrightarrow> Q its"
  shows "Q its"
  using assms(1)
proof (induction its rule: length_induct)
  case (1 xs)
  show ?case
  proof (cases "length xs = 1")
    case True
    then obtain x where "xs = [x]" by (cases xs) auto
    with assms(2) show ?thesis by simp
  next
    case False
    moreover from 1(2) have "length xs \<noteq> 0" by simp
    ultimately have len: "2 \<le> length xs" by arith
    then have a: "length (take (length xs div 2) xs) < length xs" "take (length xs div 2) xs \<noteq> []"
      and b: "length (drop (length xs div 2) xs) < length xs" "drop (length xs div 2) xs \<noteq> []"
      by auto
    from 1(1) a b assms(3) [OF len] show ?thesis by blast
  qed
qed

lemma make_subtree_nonempty:
  assumes "its \<noteq> []"
  shows "\<exists>n ns. make_subtree P S its = Inr (n # ns)"
  using assms
proof (induction its rule: halves_induct)
  case (single x)
  then show ?case by (cases x) (simp add: make_subtree_single)
next
  case (split its)
  then obtain l ls r rs where
    l: "make_subtree P S (take (length its div 2) its) = Inr (l # ls)" and
    r: "make_subtree P S (drop (length its div 2) its) = Inr (r # rs)" by blast
  obtain cp where "commonprefix [fst (its ! (length its div 2)), get_node_key l, get_node_key r] = Inr cp"
    using commonprefix_longest [of "[fst (its ! (length its div 2)), get_node_key l, get_node_key r]"]
    by auto
  from make_subtree_split [OF split(1) l r this] show ?case by blast
qed

lemma make_subtree_unfold [consumes 1]:
  assumes "2 \<le> length its"
  obtains l ls r rs cp where
     "make_subtree P S (take (length its div 2) its) = Inr (l # ls)"
     "make_subtree P S (drop (length its div 2) its) = Inr (r # rs)"
     "commonprefix [fst (its ! (length its div 2)), get_node_key l, get_node_key r] = Inr cp"
     "make_subtree P S its =
       Inr (TreeNode (take (max 1 (length cp + 1)) (fst (its ! (length its div 2))))
              (Some (hash_object S (encode P l))) (Some (hash_object S (encode P r)))
            # (l # ls) @ (r # rs))"
proof -
  from assms have "take (length its div 2) its \<noteq> []" "drop (length its div 2) its \<noteq> []"
    by auto
  from make_subtree_nonempty [OF this(1), of P S] make_subtree_nonempty [OF this(2), of P S]
  obtain l ls r rs where
    l: "make_subtree P S (take (length its div 2) its) = Inr (l # ls)" and
    r: "make_subtree P S (drop (length its div 2) its) = Inr (r # rs)"
    by auto
  have "[fst (its ! (length its div 2)), get_node_key l, get_node_key r] \<noteq> []" by simp
  from commonprefix_longest [OF this] obtain cp where
    cp: "commonprefix [fst (its ! (length its div 2)), get_node_key l, get_node_key r] = Inr cp"
    by auto
  from that [OF l r cp make_subtree_split [OF assms l r cp]] show thesis .
qed

text \<open>Every internal node references two nodes of the list it is built in.\<close>

lemma make_subtree_children:
  assumes "its \<noteq> []" and "make_subtree P S its = Inr nodes" and "TreeNode p lh rh \<in> set nodes"
  shows "\<exists>l r. l \<in> set nodes \<and> r \<in> set nodes \<and>
           lh = Some (hash_object S (encode P l)) \<and> rh = Some (hash_object S (encode P r))"
  using assms
proof (induction its arbitrary: nodes rule: halves_induct)
  case (single x)
  obtain k v where "x = (k, v)" by (cases x)
  with single(1) have "nodes = [TreeLeaf k (hash_object S v)]"
    by (simp add: make_subtree_single)
  with single(2) show ?case by simp
next
  case (split its)
  let ?m = "length its div 2"
  from split(1) obtain l ls r rs cp where
    l: "make_subtree P S (take ?m its) = Inr (l # ls)" and
    r: "make_subtree P S (drop ?m its) = Inr (r # rs)" and
    cp: "commonprefix [fst (its ! ?m), get_node_key l, get_node_key r] = Inr cp" and
    res: "make_subtree P S its =
       Inr (TreeNode (take (max 1 (length cp + 1)) (fst (its ! ?m)))
              (Some (hash_object S (encode P l))) (Some (hash_object S (encode P r)))
            # (l # ls) @ (r # rs))"
    by (rule make_subtree_unfold)
  from res split.prems(1) have nodes: "nodes = TreeNode (take (max 1 (length cp + 1)) (fst (its ! ?m)))
              (Some (hash_object S (encode P l))) (Some (hash_object S (encode P r)))
            # (l # ls) @ (r # rs)" by simp
  have sub: "set (l # ls) \<subseteq> set nodes" "set (r # rs) \<subseteq> set nodes"
    unfolding nodes by auto
  from split.prems(2) consider
      (top) "lh = Some (hash_object S (encode P l))" "rh = Some (hash_object S (encode P r))"
    | (left) "TreeNode p lh rh \<in> set (l # ls)"
    | (right) "TreeNode p lh rh \<in> set (r # rs)"
    unfolding nodes by auto
  then show ?case
  proof cases
    case top
    moreover have "l \<in> set nodes" "r \<in> set nodes" using sub by auto
    ultimately show ?thesis by blast
  next
    case left
    from split.IH(1) [OF l left] sub(1) show ?thesis by blast
  next
    case right
    from split.IH(2) [OF r right] sub(2) show ?thesis by blast
  qed
qed

text \<open>The example builder, evaluated.\<close>

lemma ex_items_sorted: "sort_key fst (items ex_builder) = ex_items"
  by (simp add: ex_builder_def stage_def setitem_def TreeBuilder_init_def ex_items_def)

lemma ex_make_subtree: "make_subtree ex_pack ex_store ex_items = Inr ex_nodes"
  by code_simp

section \<open>Pivot prefixes\<close>

text \<open>
  Claim C3. For two or more items, the internal node built by \<open>_make_subtree\<close> stores
  as pivot prefix the midpoint key cut to \<open>max(1, len(common_prefix) + 1)\<close> characters,
  where \<open>common_prefix\<close> is the longest common prefix of three candidates: the midpoint
  key, and for each of the two child roots its lookup key if it is a leaf and its own pivot
  prefix if it is an internal node. It is a prefix of the three, and every prefix of the
  three is a prefix of it.
\<close>

theorem pivot_prefix_computed:
  assumes "2 \<le> length its"
  shows "\<exists>l ls r rs left_key right_key common_prefix lh rh.
     make_subtree P S (take (length its div 2) its) = Inr (l # ls) \<and>
     make_subtree P S (drop (length its div 2) its) = Inr (r # rs) \<and>
     left_key = (case l of TreeLeaf lookup_key ph \<Rightarrow> lookup_key
                         | TreeNode pivot_prefix a b \<Rightarrow> pivot_prefix) \<and>
     right_key = (case r of TreeLeaf lookup_key ph \<Rightarrow> lookup_key
                          | TreeNode pivot_prefix a b \<Rightarrow> pivot_prefix) \<and>
     (\<forall>s \<in> {fst (its ! (length its div 2)), left_key, right_key}.
         prefix common_prefix s) \<and>
     (\<forall>q. (\<forall>s \<in> {fst (its ! (length its div 2)), left_key, right_key}.
              prefix q s) \<longrightarrow> prefix q common_prefix) \<and>
     make_subtree P S its =
       Inr (TreeNode (take (max 1 (length common_prefix + 1)) (fst (its ! (length its div 2))))
              lh rh # (l # ls) @ (r # rs))"
proof -
  let ?m = "length its div 2"
  from assms obtain l ls r rs cp where
    l: "make_subtree P S (take ?m its) = Inr (l # ls)" and
    r: "make_subtree P S (drop ?m its) = Inr (r # rs)" and
    cp: "commonprefix [fst (its ! ?m), get_node_key l, get_node_key r] = Inr cp" and
    res: "make_subtree P S its =
       Inr (TreeNode (take (max 1 (length cp + 1)) (fst (its ! ?m)))
              (Some (hash_object S (encode P l))) (Some (hash_object S (encode P r)))
            # (l # ls) @ (r # rs))"
    by (rule make_subtree_unfold)
  have kl: "get_node_key l = (case l of TreeLeaf lookup_key ph \<Rightarrow> lookup_key
                         | TreeNode pivot_prefix a b \<Rightarrow> pivot_prefix)"
    by (cases l) simp_all
  have kr: "get_node_key r = (case r of TreeLeaf lookup_key ph \<Rightarrow> lookup_key
                         | TreeNode pivot_prefix a b \<Rightarrow> pivot_prefix)"
    by (cases r) simp_all
  have "[fst (its ! ?m), get_node_key l, get_node_key r] \<noteq> []" by simp
  from commonprefix_longest [OF this] cp
  have a: "\<forall>s \<in> {fst (its ! ?m), get_node_key l, get_node_key r}. prefix cp s"
    and b: "\<forall>q. (\<forall>s \<in> {fst (its ! ?m), get_node_key l, get_node_key r}. prefix q s)
               \<longrightarrow> prefix q cp"
    by simp_all
  show ?thesis
    by (intro exI conjI) (rule l r kl kr a b res)+
qed


theorem pivot_prefix_computed_witness:
  "2 \<le> length ex_items2 \<and>
   (\<exists>l ls r rs left_key right_key common_prefix lh rh.
     make_subtree ex_pack ex_store (take (length ex_items2 div 2) ex_items2) = Inr (l # ls) \<and>
     make_subtree ex_pack ex_store (drop (length ex_items2 div 2) ex_items2) = Inr (r # rs) \<and>
     l = TreeLeaf ''aa'' ''#v1'' \<and>
     r = TreeNode ''abc'' (Some ''#L110ab#v2'') (Some ''#L11110abcd#v3'') \<and>
     fst (ex_items2 ! (length ex_items2 div 2)) = ''ab'' \<and>
     left_key = ''aa'' \<and> right_key = ''abc'' \<and> common_prefix = ''a'' \<and>
     make_subtree ex_pack ex_store ex_items2 = Inr (TreeNode ''ab'' lh rh # (l # ls) @ (r # rs)))"
proof -
  let ?m = "length ex_items2 div 2"
  have h: "2 \<le> length ex_items2" by (simp add: ex_items2_def)
  have mid: "fst (ex_items2 ! ?m) = ''ab''" by (simp add: ex_items2_def)
  have tl: "make_subtree ex_pack ex_store (take ?m ex_items2) = Inr [TreeLeaf ''aa'' ''#v1'']"
    by code_simp
  have dr: "make_subtree ex_pack ex_store (drop ?m ex_items2)
      = Inr [TreeNode ''abc'' (Some ''#L110ab#v2'') (Some ''#L11110abcd#v3''),
             TreeLeaf ''ab'' ''#v2'', TreeLeaf ''abcd'' ''#v3'']"
    by code_simp
  from pivot_prefix_computed [OF h, of ex_pack ex_store]
  obtain l ls r rs left_key right_key common_prefix lh rh where
    l: "make_subtree ex_pack ex_store (take ?m ex_items2) = Inr (l # ls)" and
    r: "make_subtree ex_pack ex_store (drop ?m ex_items2) = Inr (r # rs)" and
    kl: "left_key = (case l of TreeLeaf lookup_key ph \<Rightarrow> lookup_key
                         | TreeNode pivot_prefix a b \<Rightarrow> pivot_prefix)" and
    kr: "right_key = (case r of TreeLeaf lookup_key ph \<Rightarrow> lookup_key
                          | TreeNode pivot_prefix a b \<Rightarrow> pivot_prefix)" and
    a: "\<forall>s \<in> {fst (ex_items2 ! ?m), left_key, right_key}. prefix common_prefix s" and
    b: "\<forall>q. (\<forall>s \<in> {fst (ex_items2 ! ?m), left_key, right_key}. prefix q s)
              \<longrightarrow> prefix q common_prefix" and
    res: "make_subtree ex_pack ex_store ex_items2 =
       Inr (TreeNode (take (max 1 (length common_prefix + 1)) (fst (ex_items2 ! ?m)))
              lh rh # (l # ls) @ (r # rs))"
    by blast
  from l tl have l': "l = TreeLeaf ''aa'' ''#v1''" by simp
  from r dr have r': "r = TreeNode ''abc'' (Some ''#L110ab#v2'') (Some ''#L11110abcd#v3'')"
    by simp
  from kl l' have kl': "left_key = ''aa''" by simp
  from kr r' have kr': "right_key = ''abc''" by simp
  from a mid kl' have p1: "prefix common_prefix ''ab''" and p2: "prefix common_prefix ''aa''"
    by simp_all
  have "\<forall>s \<in> {fst (ex_items2 ! ?m), left_key, right_key}. prefix ''a'' s"
    by (simp add: mid kl' kr')
  with b have p3: "prefix ''a'' common_prefix" by blast
  from p1 p2 p3 have cp: "common_prefix = ''a''"
    by (auto simp: prefix_Cons)
  from res cp mid have res': "make_subtree ex_pack ex_store ex_items2
      = Inr (TreeNode ''ab'' lh rh # (l # ls) @ (r # rs))" by simp
  show ?thesis
    by (intro conjI exI) (rule h l r l' r' mid kl' kr' cp res')+
qed

section \<open>Splitting at the midpoint\<close>

text \<open>
  Claim C4. For two or more items, \<open>_make_subtree\<close> splits at \<open>m = len // 2\<close>, recurses
  on \<open>items[:m]\<close> (the \<open>m\<close> items before the pivot item) and on \<open>items[m:]\<close> (which
  starts with the pivot item, so it is never empty), and returns
  \<open>[internalNode] + leftNodes + rightNodes\<close>, the internal node referencing the
  first node of each of the two lists.
\<close>

theorem midpoint_split:
  assumes "2 \<le> length its"
  shows "\<exists>internalNode leftNodes rightNodes p l ls r rs.
     make_subtree P S (take (length its div 2) its) = Inr leftNodes \<and>
     make_subtree P S (drop (length its div 2) its) = Inr rightNodes \<and>
     make_subtree P S its = Inr ([internalNode] @ leftNodes @ rightNodes) \<and>
     leftNodes = l # ls \<and> rightNodes = r # rs \<and>
     internalNode = TreeNode p (Some (hash_object S (encode P l)))
                                (Some (hash_object S (encode P r))) \<and>
     drop (length its div 2) its = its ! (length its div 2) # drop (Suc (length its div 2)) its \<and>
     take (length its div 2) its @ drop (length its div 2) its = its \<and>
     length (take (length its div 2) its) = length its div 2"
proof -
  let ?m = "length its div 2"
  from assms obtain l ls r rs cp where
    l: "make_subtree P S (take ?m its) = Inr (l # ls)" and
    r: "make_subtree P S (drop ?m its) = Inr (r # rs)" and
    cp: "commonprefix [fst (its ! ?m), get_node_key l, get_node_key r] = Inr cp" and
    res: "make_subtree P S its =
       Inr (TreeNode (take (max 1 (length cp + 1)) (fst (its ! ?m)))
              (Some (hash_object S (encode P l))) (Some (hash_object S (encode P r)))
            # (l # ls) @ (r # rs))"
    by (rule make_subtree_unfold)
  from assms have lt: "?m < length its" by auto
  then have d: "drop ?m its = its ! ?m # drop (Suc ?m) its"
    by (simp add: Cons_nth_drop_Suc)
  from lt have len: "length (take ?m its) = ?m" by simp
  from res have res': "make_subtree P S its =
       Inr ([TreeNode (take (max 1 (length cp + 1)) (fst (its ! ?m)))
              (Some (hash_object S (encode P l))) (Some (hash_object S (encode P r)))]
            @ (l # ls) @ (r # rs))" by simp
  have t: "take ?m its @ drop ?m its = its" by simp
  show ?thesis
    by (intro exI conjI) (rule l r res' refl d t len)+
qed

theorem midpoint_split_witness:
  "2 \<le> length ex_items \<and>
   (\<exists>internalNode leftNodes rightNodes p l ls r rs.
     make_subtree ex_pack ex_store (take (length ex_items div 2) ex_items) = Inr leftNodes \<and>
     make_subtree ex_pack ex_store (drop (length ex_items div 2) ex_items) = Inr rightNodes \<and>
     make_subtree ex_pack ex_store ex_items = Inr ([internalNode] @ leftNodes @ rightNodes) \<and>
     leftNodes = l # ls \<and> rightNodes = r # rs \<and>
     internalNode = TreeNode p (Some (hash_object ex_store (encode ex_pack l)))
                                (Some (hash_object ex_store (encode ex_pack r))) \<and>
     drop (length ex_items div 2) ex_items
       = ex_items ! (length ex_items div 2) # drop (Suc (length ex_items div 2)) ex_items \<and>
     take (length ex_items div 2) ex_items @ drop (length ex_items div 2) ex_items = ex_items \<and>
     length (take (length ex_items div 2) ex_items) = length ex_items div 2)"
proof -
  have h: "2 \<le> length ex_items" by (simp add: ex_items_def)
  show ?thesis by (rule conjI [OF h midpoint_split [OF h, of ex_pack ex_store]])
qed

section \<open>Child references of internal nodes\<close>

text \<open>
  Claim C9. In the list of nodes that \<open>_make_subtree\<close> returns, every internal node
  has both child hashes set, each the content hash of a node of the list; a single item
  gives a leaf, not an internal node.
\<close>

theorem internal_nodes_have_both_children:
  assumes "make_subtree P S its = Inr nodes"
  shows "(\<forall>p lh rh. TreeNode p lh rh \<in> set nodes \<longrightarrow>
            (\<exists>l r. l \<in> set nodes \<and> r \<in> set nodes \<and>
               lh = Some (hash_object S (encode P l)) \<and>
               rh = Some (hash_object S (encode P r))))
         \<and> (length its = 1 \<longrightarrow> (\<exists>k ph. nodes = [TreeLeaf k ph]))"
proof -
  from assms have ne: "its \<noteq> []" by (auto simp: make_subtree_Nil)
  have "\<exists>k ph. nodes = [TreeLeaf k ph]" if "length its = 1"
  proof -
    from that obtain k v where "its = [(k, v)]" by (cases its) auto
    with assms show ?thesis by (auto simp: make_subtree_single)
  qed
  with make_subtree_children [OF ne assms] show ?thesis by blast
qed

theorem internal_nodes_have_both_children_witness:
  "make_subtree ex_pack ex_store ex_items = Inr ex_nodes \<and>
   (\<exists>l r. l \<in> set ex_nodes \<and> r \<in> set ex_nodes \<and>
      Some ''#L110bb#v2'' = Some (hash_object ex_store (encode ex_pack l)) \<and>
      Some ''#L10c#v3'' = Some (hash_object ex_store (encode ex_pack r)))"
proof -
  have h: "make_subtree ex_pack ex_store ex_items = Inr ex_nodes" by (rule ex_make_subtree)
  have m: "TreeNode ''c'' (Some ''#L110bb#v2'') (Some ''#L10c#v3'') \<in> set ex_nodes"
    by (simp add: ex_nodes_def)
  from internal_nodes_have_both_children [OF h] m h show ?thesis by blast
qed

section \<open>What commit returns\<close>

text \<open>
  Adding to the store changes neither its hash function nor its default; the nodes built
  depend on the store through its hash function only; and a commit of a non-empty
  builder returns a tree rooted at the hash of the first node.
\<close>

lemma add_all_hash [simp]: "hash_object (add_all S xs) = hash_object S"
  unfolding add_all_def by (induction xs arbitrary: S) (simp_all add: store_add_def Let_def)

lemma add_all_check_default [simp]: "check_default (add_all S xs) = check_default S"
  unfolding add_all_def by (induction xs arbitrary: S) (simp_all add: store_add_def Let_def)

lemma make_subtree_hash_cong:
  assumes "hash_object S = hash_object S'"
  shows "make_subtree P S its = make_subtree P S' its"
proof (cases "its = []")
  case True
  then show ?thesis by (simp add: make_subtree_Nil)
next
  case False
  then show ?thesis
  proof (induction its rule: halves_induct)
    case (single x)
    obtain k v where "x = (k, v)" by (cases x)
    with assms show ?case by (simp add: make_subtree_single)
  next
    case (split its)
    let ?m = "length its div 2"
    from split(1) obtain l ls r rs cp where
      l: "make_subtree P S (take ?m its) = Inr (l # ls)" and
      r: "make_subtree P S (drop ?m its) = Inr (r # rs)" and
      cp: "commonprefix [fst (its ! ?m), get_node_key l, get_node_key r] = Inr cp" and
      res: "make_subtree P S its =
         Inr (TreeNode (take (max 1 (length cp + 1)) (fst (its ! ?m)))
                (Some (hash_object S (encode P l))) (Some (hash_object S (encode P r)))
              # (l # ls) @ (r # rs))"
      by (rule make_subtree_unfold)
    from l split.IH(1) have l': "make_subtree P S' (take ?m its) = Inr (l # ls)" by simp
    from r split.IH(2) have r': "make_subtree P S' (drop ?m its) = Inr (r # rs)" by simp
    from make_subtree_split [OF split(1) l' r' cp] res assms show ?case by simp
  qed
qed

lemma commit_unfold:
  assumes "items self \<noteq> []"
  obtains n ns where
    "make_subtree P (b_object_store self) (sort_key fst (items self)) = Inr (n # ns)"
    "commit P self =
       (Inr \<lparr>object_store = add_all (add_all (b_object_store self) (map (encode P) (n # ns)))
                               (map snd (items self)),
             root = hash_object (b_object_store self) (encode P n),
             cache = Map.empty\<rparr>,
        self\<lparr>b_object_store := add_all (add_all (b_object_store self) (map (encode P) (n # ns)))
                               (map snd (items self))\<rparr>)"
proof -
  from assms have "sort_key fst (items self) \<noteq> []"
    by (metis length_sort length_0_conv)
  from make_subtree_nonempty [OF this, of P "b_object_store self"] obtain n ns where
    m: "make_subtree P (b_object_store self) (sort_key fst (items self)) = Inr (n # ns)"
    by auto
  then have "commit P self =
       (Inr \<lparr>object_store = add_all (add_all (b_object_store self) (map (encode P) (n # ns)))
                               (map snd (items self)),
             root = hash_object (b_object_store self) (encode P n),
             cache = Map.empty\<rparr>,
        self\<lparr>b_object_store := add_all (add_all (b_object_store self) (map (encode P) (n # ns)))
                               (map snd (items self))\<rparr>)"
    by (simp add: commit_def Let_def)
  with m that show thesis by blast
qed

lemma commit_items: "items (snd (commit P self)) = items self"
proof (cases "items self = []")
  case True
  then show ?thesis by (simp add: commit_def make_subtree_Nil)
next
  case False
  then show ?thesis by (rule commit_unfold [of self P]) simp
qed

lemma commit_hash: "hash_object (b_object_store (snd (commit P self))) = hash_object (b_object_store self)"
proof (cases "items self = []")
  case True
  then show ?thesis by (simp add: commit_def make_subtree_Nil)
next
  case False
  then show ?thesis by (rule commit_unfold [of self P]) simp
qed

lemma commit_Inr_nonempty: "commit P self = (Inr t, self') \<Longrightarrow> items self \<noteq> []"
  by (auto simp: commit_def make_subtree_Nil)

lemma commit_root_cong:
  assumes c: "commit P self = (Inr t, self')"
    and h: "hash_object (b_object_store other) = hash_object (b_object_store self)"
    and s: "sort_key fst (items other) = sort_key fst (items self)"
  shows "\<exists>t2 other'. commit P other = (Inr t2, other') \<and> root t2 = root t"
proof -
  from c have ne: "items self \<noteq> []" by (rule commit_Inr_nonempty)
  then have "sort_key fst (items self) \<noteq> []" by (metis length_sort length_0_conv)
  with s have ne': "items other \<noteq> []" by auto
  from ne obtain n ns where
    m: "make_subtree P (b_object_store self) (sort_key fst (items self)) = Inr (n # ns)" and
    cs: "commit P self =
       (Inr \<lparr>object_store = add_all (add_all (b_object_store self) (map (encode P) (n # ns)))
                               (map snd (items self)),
             root = hash_object (b_object_store self) (encode P n),
             cache = Map.empty\<rparr>,
        self\<lparr>b_object_store := add_all (add_all (b_object_store self) (map (encode P) (n # ns)))
                               (map snd (items self))\<rparr>)"
    by (rule commit_unfold [of self P])
  from ne' obtain n' ns' where
    m': "make_subtree P (b_object_store other) (sort_key fst (items other)) = Inr (n' # ns')" and
    co: "commit P other =
       (Inr \<lparr>object_store = add_all (add_all (b_object_store other) (map (encode P) (n' # ns')))
                               (map snd (items other)),
             root = hash_object (b_object_store other) (encode P n'),
             cache = Map.empty\<rparr>,
        other\<lparr>b_object_store := add_all (add_all (b_object_store other) (map (encode P) (n' # ns')))
                               (map snd (items other))\<rparr>)"
    by (rule commit_unfold [of other P])
  from m m' s make_subtree_hash_cong [OF h, of P "sort_key fst (items self)"]
  have "n' = n" by simp
  from c cs have "root t = hash_object (b_object_store self) (encode P n)" by auto
  with \<open>n' = n\<close> h have "root t = hash_object (b_object_store other) (encode P n')" by simp
  with co show ?thesis by simp
qed

lemma ex_builder_items: "items ex_builder = [(''c'', ''v3''), (''ba'', ''v1''), (''bb'', ''v2'')]"
  by (simp add: ex_builder_def stage_def setitem_def TreeBuilder_init_def)

lemma ex_commit: "commit ex_pack ex_builder = (Inr ex_tree, snd (commit ex_pack ex_builder))"
proof -
  have "items ex_builder \<noteq> []" by (simp add: ex_builder_items)
  then show ?thesis
    by (rule commit_unfold [of ex_builder ex_pack]) (simp add: ex_tree_def)
qed

text \<open>Dictionaries as association lists: keys stay distinct, and sorting by key is canonical.\<close>

lemma dict_set_keys: "fst ` set (dict_set k v ps) = insert k (fst ` set ps)"
proof (induction ps)
  case Nil
  show ?case by simp
next
  case (Cons p ps)
  obtain k' v' where p: "p = (k', v')" by (cases p)
  show ?case
  proof (cases "k' = k")
    case True
    then show ?thesis by (simp add: p)
  next
    case False
    then have "fst ` set (dict_set k v (p # ps)) = insert k' (fst ` set (dict_set k v ps))"
      by (simp add: p)
    also have "\<dots> = insert k' (insert k (fst ` set ps))" by (simp only: Cons.IH)
    also have "\<dots> = insert k (fst ` set (p # ps))" by (auto simp: p)
    finally show ?thesis .
  qed
qed

lemma dict_set_distinct: "distinct (map fst ps) \<Longrightarrow> distinct (map fst (dict_set k v ps))"
proof (induction ps)
  case Nil
  then show ?case by simp
next
  case (Cons p ps)
  obtain k' v' where p: "p = (k', v')" by (cases p)
  from Cons have d: "distinct (map fst (dict_set k v ps))" "k' \<notin> fst ` set ps"
    by (simp_all add: p)
  show ?case
  proof (cases "k' = k")
    case True
    with Cons.prems p show ?thesis by simp
  next
    case False
    with d p show ?thesis by (simp add: dict_set_keys)
  qed
qed

lemma stage_store: "b_object_store (stage S kvs) = S"
proof -
  have "b_object_store (foldl (\<lambda>self (k, v). setitem self k v) b kvs) = b_object_store b"
    for b :: "'a builder"
    by (induction kvs arbitrary: b) (simp_all add: setitem_def split: prod.splits)
  then show ?thesis by (simp add: stage_def TreeBuilder_init_def)
qed

lemma stage_distinct: "distinct (map fst (items (stage S kvs)))"
proof -
  have "distinct (map fst (items (foldl (\<lambda>self (k, v). setitem self k v) b kvs)))"
    if "distinct (map fst (items b))" for b :: "'a builder"
    using that
  proof (induction kvs arbitrary: b)
    case Nil
    then show ?case by simp
  next
    case (Cons kv kvs)
    obtain k v where kv: "kv = (k, v)" by (cases kv)
    from Cons.prems have "distinct (map fst (items (setitem b k v)))"
      by (simp add: setitem_def dict_set_distinct)
    from Cons.IH [OF this] show ?case by (simp add: kv)
  qed
  then show ?thesis by (simp add: stage_def TreeBuilder_init_def)
qed

lemma insort_key_keys_distinct:
  "distinct (map fst (insort_key fst x xs))
     \<longleftrightarrow> fst x \<notin> fst ` set xs \<and> distinct (map fst xs)"
proof (induction xs)
  case Nil
  then show ?case by simp
next
  case (Cons y ys)
  show ?case
  proof (cases "fst x \<le> fst y")
    case True
    then show ?thesis by simp
  next
    case False
    then have e: "insort_key fst x (y # ys) = y # insort_key fst x ys" by simp
    have s: "fst ` set (insort_key fst x ys) = insert (fst x) (fst ` set ys)"
      by (simp add: set_insort_key)
    show ?thesis unfolding e using Cons s by auto
  qed
qed

lemma sort_key_keys_distinct:
  "distinct (map fst (sort_key fst xs)) \<longleftrightarrow> distinct (map fst xs)"
  by (induction xs) (simp_all add: insort_key_keys_distinct)

lemma keyed_list_unique:
  assumes "map fst xs = map fst ys" and "distinct (map fst xs)" and "set xs = set ys"
  shows "xs = ys"
  using assms
proof (induction xs arbitrary: ys)
  case Nil
  then show ?case by simp
next
  case (Cons x xs)
  from Cons.prems(1) obtain y ys' where ys: "ys = y # ys'" and k: "fst x = fst y"
    and m: "map fst xs = map fst ys'" by (cases ys) auto
  from Cons.prems(2) have nx: "fst x \<notin> fst ` set xs" and dx: "distinct (map fst xs)" by auto
  from m have "fst ` set xs = fst ` set ys'" by (metis set_map)
  with nx k have ny: "fst y \<notin> fst ` set ys'" by simp
  have "x \<in> set (y # ys')" using Cons.prems(3) ys by auto
  moreover have "x \<notin> set ys'"
  proof
    assume "x \<in> set ys'"
    then have "fst x \<in> fst ` set ys'" by (rule imageI)
    with ny k show False by simp
  qed
  ultimately have xy: "x = y" by simp
  have "set xs = set ys'"
  proof
    show "set xs \<subseteq> set ys'"
    proof
      fix z assume z: "z \<in> set xs"
      then have "z \<in> set (y # ys')" using Cons.prems(3) ys by auto
      moreover have "z \<noteq> y"
      proof
        assume "z = y"
        with z xy have "fst x \<in> fst ` set xs" by (simp add: imageI)
        with nx show False by simp
      qed
      ultimately show "z \<in> set ys'" by simp
    qed
    show "set ys' \<subseteq> set xs"
    proof
      fix z assume z: "z \<in> set ys'"
      then have "z \<in> set (x # xs)" using Cons.prems(3) ys by auto
      moreover have "z \<noteq> x"
      proof
        assume "z = x"
        with z xy have "fst y \<in> fst ` set ys'" by (simp add: imageI)
        with ny show False by simp
      qed
      ultimately show "z \<in> set xs" by simp
    qed
  qed
  from Cons.IH [OF m dx this] xy ys show ?case by simp
qed

lemma sort_key_unique:
  assumes "distinct (map fst xs)" and "distinct (map fst ys)" and "set xs = set ys"
  shows "sort_key fst xs = sort_key fst (ys :: ('k::linorder \<times> 'v) list)"
proof (rule keyed_list_unique)
  have e: "set (map fst (sort_key fst xs)) = set (map fst (sort_key fst ys))"
    using assms(3) by simp
  have s1: "sorted (map fst (sort_key fst xs))" and s2: "sorted (map fst (sort_key fst ys))"
    by simp_all
  have d1: "distinct (map fst (sort_key fst xs))" and d2: "distinct (map fst (sort_key fst ys))"
    by (simp_all add: sort_key_keys_distinct assms)
  show "map fst (sort_key fst xs) = map fst (sort_key fst ys)"
    by (rule sorted_distinct_set_unique [OF s1 d1 s2 d2 e])
  show "distinct (map fst (sort_key fst xs))" by (simp add: sort_key_keys_distinct assms)
  show "set (sort_key fst xs) = set (sort_key fst ys)" using assms(3) by simp
qed

section \<open>Committing twice\<close>

text \<open>
  Claim C10. \<open>commit\<close> leaves the staged items of the builder as they were (it only
  changes the object store), so that a second \<open>commit\<close> on the same builder succeeds
  whenever the first did, and returns a tree with the same root hash.
\<close>

theorem commit_keeps_items:
  assumes "commit P self = (r, self')"
  shows "items self' = items self \<and>
         (\<forall>t. r = Inr t \<longrightarrow>
            (\<exists>t2 self''. commit P self' = (Inr t2, self'') \<and> root t2 = root t))"
proof -
  from assms have s: "self' = snd (commit P self)" by simp
  have i: "items self' = items self" unfolding s by (rule commit_items)
  have "\<exists>t2 self''. commit P self' = (Inr t2, self'') \<and> root t2 = root t" if "r = Inr t" for t
  proof (rule commit_root_cong)
    from assms that show "commit P self = (Inr t, self')" by simp
    show "hash_object (b_object_store self') = hash_object (b_object_store self)"
      unfolding s by (rule commit_hash)
    from i show "sort_key fst (items self') = sort_key fst (items self)" by simp
  qed
  with i show ?thesis by blast
qed

theorem commit_keeps_items_witness:
  "commit ex_pack ex_builder = (Inr ex_tree, snd (commit ex_pack ex_builder)) \<and>
   items (snd (commit ex_pack ex_builder)) = items ex_builder \<and>
   (\<exists>t2 self''. commit ex_pack (snd (commit ex_pack ex_builder)) = (Inr t2, self'')
      \<and> root t2 = root ex_tree)"
  using commit_keeps_items [OF ex_commit] ex_commit by blast

section \<open>Determinism of the root hash\<close>

text \<open>
  Claim C8. Two fresh builders over the same object store (the second one created after
  the first has committed, the store holding what that commit added), staged with the same
  set of key-value pairs in any order of assignment, commit to trees with the same root
  hash. Hashing and encoding are functions, hence deterministic.
\<close>

theorem commit_deterministic:
  assumes "commit P (stage S kvs1) = (Inr t1, b1')"
    and "set (items (stage (b_object_store b1') kvs2)) = set (items (stage S kvs1))"
  shows "\<exists>t2 b2'. commit P (stage (b_object_store b1') kvs2) = (Inr t2, b2') \<and> root t2 = root t1"
proof (rule commit_root_cong [OF assms(1)])
  from assms(1) have "b1' = snd (commit P (stage S kvs1))" by simp
  then show "hash_object (b_object_store (stage (b_object_store b1') kvs2))
               = hash_object (b_object_store (stage S kvs1))"
    by (simp add: stage_store commit_hash)
  show "sort_key fst (items (stage (b_object_store b1') kvs2))
          = sort_key fst (items (stage S kvs1))"
    by (rule sort_key_unique [OF stage_distinct stage_distinct assms(2)])
qed

theorem commit_deterministic_witness:
  "commit ex_pack (stage ex_store [(''c'', ''v3''), (''ba'', ''v1''), (''bb'', ''v2'')])
     = (Inr ex_tree, snd (commit ex_pack ex_builder)) \<and>
   set (items (stage (b_object_store (snd (commit ex_pack ex_builder)))
                 [(''bb'', ''v0''), (''ba'', ''v1''), (''c'', ''v3''), (''bb'', ''v2'')]))
     = set (items (stage ex_store [(''c'', ''v3''), (''ba'', ''v1''), (''bb'', ''v2'')])) \<and>
   (\<exists>t2 b2'. commit ex_pack (stage (b_object_store (snd (commit ex_pack ex_builder)))
                 [(''bb'', ''v0''), (''ba'', ''v1''), (''c'', ''v3''), (''bb'', ''v2'')])
               = (Inr t2, b2') \<and> root t2 = root ex_tree)"
proof -
  have c: "commit ex_pack (stage ex_store [(''c'', ''v3''), (''ba'', ''v1''), (''bb'', ''v2'')])
     = (Inr ex_tree, snd (commit ex_pack ex_builder))"
    using ex_commit by (simp add: ex_builder_def)
  have s: "set (items (stage (b_object_store (snd (commit ex_pack ex_builder)))
                 [(''bb'', ''v0''), (''ba'', ''v1''), (''c'', ''v3''), (''bb'', ''v2'')]))
     = set (items (stage ex_store [(''c'', ''v3''), (''ba'', ''v1''), (''bb'', ''v2'')]))"
    by (simp add: stage_def setitem_def TreeBuilder_init_def) blast
  from commit_deterministic [OF c s] c s show ?thesis by blast
qed

section \<open>The proof traversal\<close>

text \<open>
  Reading a node only adds to the cache what the store and the codec give for its hash:
  what a hash resolves to, and the object store, stay the same.
\<close>

lemma get_node_by_hash_view:
  assumes "get_node_by_hash P T h = (r, T')"
  shows "r = resolve P T h" and "object_store T' = object_store T" and "root T' = root T"
    and "resolve P T' = resolve P T"
proof -
  from assms show "r = resolve P T h" by (simp add: resolve_def)
  from assms show os: "object_store T' = object_store T" and "root T' = root T"
    by (auto simp: get_node_by_hash_def split: option.splits sum.splits)
  show "resolve P T' = resolve P T"
  proof
    fix h'
    show "resolve P T' h' = resolve P T h'"
    proof (cases "T' = T")
      case True
      then show ?thesis by simp
    next
      case False
      with assms obtain b n where c: "cache T h = None"
        and g: "store_get (object_store T) h True = Inr (Some b)"
        and d: "decode P b = Inr n" and T': "T' = T\<lparr>cache := (cache T)(h \<mapsto> n)\<rparr>"
        by (auto simp: get_node_by_hash_def split: option.splits sum.splits)
      show ?thesis
      proof (cases "h' = h")
        case True
        with c g d T' show ?thesis by (simp add: resolve_def get_node_by_hash_def)
      next
        case False
        with T' show ?thesis
          by (auto simp: resolve_def get_node_by_hash_def split: option.splits sum.splits)
      qed
    qed
  qed
qed

lemma resolve_child_view:
  assumes "resolve_child P T h = (r, T')"
  shows "r = resolve_opt (resolve P T) h" and "object_store T' = object_store T"
    and "resolve P T' = resolve P T"
proof (atomize (full), cases "truthy h")
  case True
  with assms have g: "get_node_by_hash P T (the h) = (r, T')" by (simp add: resolve_child_def)
  from get_node_by_hash_view [OF g] True
  show "r = resolve_opt (resolve P T) h \<and> object_store T' = object_store T
          \<and> resolve P T' = resolve P T"
    by (simp add: resolve_opt_def)
next
  case False
  with assms
  show "r = resolve_opt (resolve P T) h \<and> object_store T' = object_store T
          \<and> resolve P T' = resolve P T"
    by (simp add: resolve_child_def resolve_opt_def)
qed

lemma proof_loop_sound:
  fixes P :: "'a::linorder pack"
  assumes "proof_loop P lookup_key T cur pa cl = Some (Inr (path, clo), T')"
  shows "\<exists>n p' c'. cur = Some n \<and> path = pa @ p' \<and> clo = cl @ c'
           \<and> proof_walk (resolve P T) lookup_key n p' c' \<and> object_store T' = object_store T"
proof -
  let ?Q = "\<lambda>(x :: (((('a pack \<times> 'a list) \<times> 'a tree) \<times> 'a node option) \<times> 'a node list) \<times> 'a node list)
      (y :: (py_error + 'a node list \<times> 'a node list) \<times> 'a tree).
     case x of (((((P, lookup_key), T), cur), pa), cl) \<Rightarrow>
      (\<forall>path clo T'. y = (Inr (path, clo), T') \<longrightarrow>
         (\<exists>n p' c'. cur = Some n \<and> path = pa @ p' \<and> clo = cl @ c'
            \<and> proof_walk (resolve P T) lookup_key n p' c' \<and> object_store T' = object_store T))"
  have "?Q (((((P, lookup_key), T), cur), pa), cl) (Inr (path, clo), T')"
  proof (rule proof_loop.raw_induct [where Pa = ?Q, rotated], goal_cases)
    case 1
    show ?case by (rule assms)
  next
    case (2 f P key T cur pa cl y)
    note 1 = 2
    have IH: "\<exists>n p' c'. c = Some n \<and> path = a @ p' \<and> clo = b @ c'
            \<and> proof_walk (resolve P U) key n p' c' \<and> object_store U' = object_store U"
      if "f P key U c a b = Some (Inr (path, clo), U')" for U c a b path clo U'
      using 1(1) [OF that] by simp
    show ?case
    proof (cases cur)
      case None
      with 1(2) show ?thesis by auto
    next
      case (Some nd)
      show ?thesis
      proof (cases nd)
        case (TreeLeaf k ph)
        with Some 1(2) show ?thesis by (auto intro: walk_leaf)
      next
        case (TreeNode pv lh rh)
        obtain r1 T1 where c1: "resolve_child P T lh = (r1, T1)" by (cases "resolve_child P T lh")
        obtain r2 T2 where c2: "resolve_child P T1 rh = (r2, T2)" by (cases "resolve_child P T1 rh")
        note v1 = resolve_child_view [OF c1] and v2 = resolve_child_view [OF c2]
        show ?thesis
        proof (cases r1)
          case (Inl e)
          with 1(2) Some TreeNode c1 show ?thesis by auto
        next
          case l: (Inr lc)
          show ?thesis
          proof (cases r2)
            case (Inl e)
            with 1(2) Some TreeNode c1 c2 l show ?thesis by auto
          next
            case r: (Inr rc)
            have rl: "resolve_opt (resolve P T) lh = Inr lc" using v1(1) l by simp
            have rr: "resolve_opt (resolve P T) rh = Inr rc" using v2(1) r v1(3) by simp
            have rs: "resolve P T2 = resolve P T" using v1(3) v2(3) by simp
            have os: "object_store T2 = object_store T" using v1(2) v2(2) by simp
            show ?thesis
            proof (cases "key < pv")
              case True
              have "\<exists>n p' c'. cur = Some n \<and> path = pa @ p' \<and> clo = cl @ c'
                  \<and> proof_walk (resolve P T) key n p' c' \<and> object_store T' = object_store T"
                if y: "y = (Inr (path, clo), T')" for path clo T'
              proof -
                from 1(2) Some TreeNode c1 c2 l r True y
                have "f P key T2 lc (pa @ [nd]) (cl @ opt_list rc) = Some (Inr (path, clo), T')"
                  by simp
                from IH [OF this] obtain n p' c' where lc: "lc = Some n"
                  and p: "path = (pa @ [nd]) @ p'" and c: "clo = (cl @ opt_list rc) @ c'"
                  and w: "proof_walk (resolve P T2) key n p' c'"
                  and o: "object_store T' = object_store T2" by blast
                from w rs have w': "proof_walk (resolve P T) key n p' c'" by simp
                from walk_left [OF True rl [unfolded lc] rr w']
                have "proof_walk (resolve P T) key nd (nd # p') (opt_list rc @ c')"
                  by (simp add: TreeNode)
                with Some p c o os show ?thesis by auto
              qed
              then show ?thesis by simp
            next
              case False
              have "\<exists>n p' c'. cur = Some n \<and> path = pa @ p' \<and> clo = cl @ c'
                  \<and> proof_walk (resolve P T) key n p' c' \<and> object_store T' = object_store T"
                if y: "y = (Inr (path, clo), T')" for path clo T'
              proof -
                from 1(2) Some TreeNode c1 c2 l r False y
                have "f P key T2 rc (pa @ [nd]) (cl @ opt_list lc) = Some (Inr (path, clo), T')"
                  by simp
                from IH [OF this] obtain n p' c' where rc: "rc = Some n"
                  and p: "path = (pa @ [nd]) @ p'" and c: "clo = (cl @ opt_list lc) @ c'"
                  and w: "proof_walk (resolve P T2) key n p' c'"
                  and o: "object_store T' = object_store T2" by blast
                from w rs have w': "proof_walk (resolve P T) key n p' c'" by simp
                from walk_right [OF False rl rr [unfolded rc] w']
                have "proof_walk (resolve P T) key nd (nd # p') (opt_list lc @ c')"
                  by (simp add: TreeNode)
                with Some p c o os show ?thesis by auto
              qed
              then show ?thesis by simp
            qed
          qed
        qed
      qed
    qed
  qed
  then show ?thesis by simp
qed

lemma proof_loop_complete:
  assumes "proof_walk res lookup_key n p c" and "resolve P T = res"
  shows "\<exists>T'. proof_loop P lookup_key T (Some n) pa cl = Some (Inr (pa @ p, cl @ c), T')"
  using assms
proof (induction arbitrary: T pa cl rule: proof_walk.induct)
  case (walk_leaf k ph)
  show ?case by (subst proof_loop.simps) simp
next
  case (walk_left pivot lh l rh right_child path closure)
  obtain r1 T1 where c1: "resolve_child P T lh = (r1, T1)" by (cases "resolve_child P T lh")
  obtain r2 T2 where c2: "resolve_child P T1 rh = (r2, T2)" by (cases "resolve_child P T1 rh")
  note v1 = resolve_child_view [OF c1] and v2 = resolve_child_view [OF c2]
  from v1 walk_left have r1: "r1 = Inr (Some l)" by simp
  from v1 v2 walk_left have r2: "r2 = Inr right_child" by simp
  from v1 v2 walk_left have "resolve P T2 = res" by simp
  from walk_left.IH [OF this, of "pa @ [TreeNode pivot lh rh]" "cl @ opt_list right_child"]
  obtain T' where "proof_loop P lookup_key T2 (Some l) (pa @ [TreeNode pivot lh rh])
      (cl @ opt_list right_child)
     = Some (Inr ((pa @ [TreeNode pivot lh rh]) @ path, (cl @ opt_list right_child) @ closure), T')"
    by blast
  with c1 c2 r1 r2 walk_left(1)
  have "proof_loop P lookup_key T (Some (TreeNode pivot lh rh)) pa cl
     = Some (Inr (pa @ TreeNode pivot lh rh # path, cl @ opt_list right_child @ closure), T')"
    by (subst proof_loop.simps) simp
  then show ?case by blast
next
  case (walk_right pivot lh left_child rh r path closure)
  obtain r1 T1 where c1: "resolve_child P T lh = (r1, T1)" by (cases "resolve_child P T lh")
  obtain r2 T2 where c2: "resolve_child P T1 rh = (r2, T2)" by (cases "resolve_child P T1 rh")
  note v1 = resolve_child_view [OF c1] and v2 = resolve_child_view [OF c2]
  from v1 walk_right have r1: "r1 = Inr left_child" by simp
  from v1 v2 walk_right have r2: "r2 = Inr (Some r)" by simp
  from v1 v2 walk_right have "resolve P T2 = res" by simp
  from walk_right.IH [OF this, of "pa @ [TreeNode pivot lh rh]" "cl @ opt_list left_child"]
  obtain T' where "proof_loop P lookup_key T2 (Some r) (pa @ [TreeNode pivot lh rh])
      (cl @ opt_list left_child)
     = Some (Inr ((pa @ [TreeNode pivot lh rh]) @ path, (cl @ opt_list left_child) @ closure), T')"
    by blast
  with c1 c2 r1 r2 walk_right(1)
  have "proof_loop P lookup_key T (Some (TreeNode pivot lh rh)) pa cl
     = Some (Inr (pa @ TreeNode pivot lh rh # path, cl @ opt_list left_child @ closure), T')"
    by (subst proof_loop.simps) simp
  then show ?case by blast
qed

text \<open>
  Claim C5. \<open>get_inclusion_proof\<close> returns the pair \<open>(path, closure)\<close> exactly when
  the root hash resolves to a node from which the descent of the specification gives that
  path and that closure: from the root down, left below the pivot with the resolved right
  child added to the closure, right otherwise with the resolved left child added, ending
  at a leaf that closes the path. The cache written on the way changes no resolution.
\<close>

theorem traversal_follows_pivots:
  "(\<exists>self'. get_inclusion_proof P self lookup_key = Some (Inr (path, closure), self'))
     \<longleftrightarrow> (\<exists>r. resolve P self (root self) = Inr (Some r)
              \<and> proof_walk (resolve P self) lookup_key r path closure)"
proof
  assume "\<exists>self'. get_inclusion_proof P self lookup_key = Some (Inr (path, closure), self')"
  then obtain self' where g: "get_inclusion_proof P self lookup_key = Some (Inr (path, closure), self')"
    by blast
  obtain r0 T1 where c: "get_node_by_hash P self (root self) = (r0, T1)"
    by (cases "get_node_by_hash P self (root self)")
  note v = get_node_by_hash_view [OF c]
  from g c obtain cur where r0: "r0 = Inr cur"
    and l: "proof_loop P lookup_key T1 cur [] [] = Some (Inr (path, closure), self')"
    by (cases r0) (auto simp: get_inclusion_proof_def root_node_def)
  from proof_loop_sound [OF l] obtain n where "cur = Some n"
    and "proof_walk (resolve P T1) lookup_key n path closure" by auto
  moreover from v(1) r0 have "resolve P self (root self) = Inr cur" by simp
  ultimately show "\<exists>r. resolve P self (root self) = Inr (Some r)
              \<and> proof_walk (resolve P self) lookup_key r path closure"
    using v(4) by simp
next
  assume "\<exists>r. resolve P self (root self) = Inr (Some r)
              \<and> proof_walk (resolve P self) lookup_key r path closure"
  then obtain r where r: "resolve P self (root self) = Inr (Some r)"
    and w: "proof_walk (resolve P self) lookup_key r path closure" by blast
  obtain r0 T1 where c: "get_node_by_hash P self (root self) = (r0, T1)"
    by (cases "get_node_by_hash P self (root self)")
  note v = get_node_by_hash_view [OF c]
  from v r have r0: "r0 = Inr (Some r)" by simp
  from proof_loop_complete [OF w v(4), of "[]" "[]"] obtain T' where
    "proof_loop P lookup_key T1 (Some r) [] [] = Some (Inr (path, closure), T')" by auto
  with c r0 show "\<exists>self'. get_inclusion_proof P self lookup_key = Some (Inr (path, closure), self')"
    by (simp add: get_inclusion_proof_def root_node_def)
qed


theorem traversal_follows_pivots_witness:
  "\<exists>r. resolve ex_pack ex_tree (root ex_tree) = Inr (Some r)
      \<and> proof_walk (resolve ex_pack ex_tree) ''ba'' r
           [TreeNode ''b'' (Some ''#L110ba#v1'')
              (Some ''#N10c+11111111110#L110bb#v2+111111110#L10c#v3''),
            TreeNode ''c'' (Some ''#L110bb#v2'') (Some ''#L10c#v3''),
            TreeLeaf ''bb'' ''#v2'']
           [TreeLeaf ''ba'' ''#v1'', TreeLeaf ''c'' ''#v3'']"
proof -
  have "map_option fst (get_inclusion_proof ex_pack ex_tree ''ba'')
      = Some (Inr ([TreeNode ''b'' (Some ''#L110ba#v1'')
              (Some ''#N10c+11111111110#L110bb#v2+111111110#L10c#v3''),
            TreeNode ''c'' (Some ''#L110bb#v2'') (Some ''#L10c#v3''),
            TreeLeaf ''bb'' ''#v2''],
           [TreeLeaf ''ba'' ''#v1'', TreeLeaf ''c'' ''#v3'']))"
    by code_simp
  then have "\<exists>self'. get_inclusion_proof ex_pack ex_tree ''ba''
      = Some (Inr ([TreeNode ''b'' (Some ''#L110ba#v1'')
              (Some ''#N10c+11111111110#L110bb#v2+111111110#L10c#v3''),
            TreeNode ''c'' (Some ''#L110bb#v2'') (Some ''#L10c#v3''),
            TreeLeaf ''bb'' ''#v2''],
           [TreeLeaf ''ba'' ''#v1'', TreeLeaf ''c'' ''#v3'']), self')"
    by (cases "get_inclusion_proof ex_pack ex_tree ''ba''") auto
  then show ?thesis by (rule traversal_follows_pivots [THEN iffD1])
qed

section \<open>Looking up committed keys\<close>

text \<open>
  Claim C1 does not hold of the code. After \<open>b['c'] = b'v3'; b['ba'] = b'v1'; b['bb'] = b'v2'\<close>
  the committed tree has root pivot \<open>b\<close>; the staged key \<open>ba\<close> is not below \<open>b\<close>, so its
  lookup descends to the right, ends at the leaf \<open>bb\<close> and raises \<open>KeyError\<close>, and the
  membership check answers \<open>False\<close>.
\<close>

theorem round_trip_fails:
  "commit ex_pack ex_builder = (Inr ex_tree, snd (commit ex_pack ex_builder))
   \<and> items ex_builder = [(''c'', ''v3''), (''ba'', ''v1''), (''bb'', ''v2'')]
   \<and> map_option fst (getitem ex_pack ex_tree ''ba'') = Some (Inl KeyError)
   \<and> map_option fst (contains ex_pack ex_tree ''ba'') = Some (Inr False)"
proof -
  have "map_option fst (getitem ex_pack ex_tree ''ba'') = Some (Inl KeyError)"
    by code_simp
  moreover have "map_option fst (contains ex_pack ex_tree ''ba'') = Some (Inr False)"
    by code_simp
  ultimately show ?thesis using ex_commit ex_builder_items by simp
qed

text \<open>
  Claim C2 does not hold of the code. In the same tree the root is the internal node with
  pivot \<open>b\<close>, its left child is the leaf with key \<open>ba\<close>, and \<open>ba\<close> is not strictly less than
  \<open>b\<close>: the pivot is cut from the midpoint key \<open>bb\<close> after the common prefix of \<open>bb\<close>, \<open>ba\<close>
  and the right child's pivot \<open>c\<close>, which is empty.
\<close>

theorem left_leaf_not_below_pivot:
  "commit ex_pack ex_builder = (Inr ex_tree, snd (commit ex_pack ex_builder))
   \<and> resolve ex_pack ex_tree (root ex_tree)
       = Inr (Some (TreeNode ''b'' (Some ''#L110ba#v1'')
                     (Some ''#N10c+11111111110#L110bb#v2+111111110#L10c#v3'')))
   \<and> resolve ex_pack ex_tree ''#L110ba#v1'' = Inr (Some (TreeLeaf ''ba'' ''#v1''))
   \<and> \<not> ''ba'' < ''b''"
proof -
  have "resolve ex_pack ex_tree (root ex_tree)
       = Inr (Some (TreeNode ''b'' (Some ''#L110ba#v1'')
                     (Some ''#N10c+11111111110#L110bb#v2+111111110#L10c#v3'')))"
    by code_simp
  moreover have "resolve ex_pack ex_tree ''#L110ba#v1'' = Inr (Some (TreeLeaf ''ba'' ''#v1''))"
    by code_simp
  moreover have "\<not> ''ba'' < ''b''" by simp
  ultimately show ?thesis using ex_commit by simp
qed

section \<open>Keys that were never staged\<close>

text \<open>
  What \<open>commit\<close> adds to the store is found again under its hash, so every node of the
  committed list resolves to itself, and the descent from the root reaches a leaf whose
  key is one of the staged keys.
\<close>

lemma add_all_append: "add_all (add_all S xs) ys = add_all S (xs @ ys)"
  by (simp add: add_all_def)

lemma add_all_snoc_backend:
  "backend (add_all S (xs @ [x])) = (backend (add_all S xs))(hash_object S x \<mapsto> x)"
proof -
  have "add_all S (xs @ [x]) = snd (store_add (add_all S xs) x)"
    by (simp add: add_all_def)
  then show ?thesis by (simp add: store_add_def Let_def)
qed

lemma add_all_backend:
  assumes "inj (hash_object S)" and "b \<in> set xs"
  shows "backend (add_all S xs) (hash_object S b) = Some b"
  using assms(2)
proof (induction xs rule: rev_induct)
  case Nil
  then show ?case by simp
next
  case (snoc x xs)
  show ?case
  proof (cases "b = x")
    case True
    then show ?thesis by (simp add: add_all_snoc_backend)
  next
    case False
    with snoc.prems have "b \<in> set xs" by simp
    from snoc.IH [OF this] have "backend (add_all S xs) (hash_object S b) = Some b" .
    moreover from False assms(1) have "hash_object S b \<noteq> hash_object S x"
      by (auto dest: injD)
    ultimately show ?thesis by (simp add: add_all_snoc_backend)
  qed
qed

lemma resolve_committed:
  assumes "inj (hash_object S)" and "encode P n \<in> set xs" and "decode P (encode P n) = Inr n"
    and "object_store t = add_all S xs" and "cache t = Map.empty"
  shows "resolve P t (hash_object S (encode P n)) = Inr (Some n)"
proof -
  from add_all_backend [OF assms(1,2)]
  have "store_get (object_store t) (hash_object S (encode P n)) True = Inr (Some (encode P n))"
    by (simp add: store_get_def assms(4))
  with assms(3,5) show ?thesis
    by (simp add: resolve_def get_node_by_hash_def)
qed

lemma make_subtree_walk:
  fixes res :: "hash \<Rightarrow> py_error + 'a::linorder node option"
  assumes "its \<noteq> []" and "make_subtree P S its = Inr (n # ns)"
    and "\<And>nd. nd \<in> set (n # ns) \<Longrightarrow> res (hash_object S (encode P nd)) = Inr (Some nd)"
    and "\<And>b. hash_object S b \<noteq> []"
  shows "\<exists>path closure k v. proof_walk res lookup_key n path closure \<and> path \<noteq> []
           \<and> last path = TreeLeaf k (hash_object S v) \<and> (k, v) \<in> set its"
  using assms(1-3)
proof (induction its arbitrary: n ns rule: halves_induct)
  case (single x)
  obtain k v where x: "x = (k, v)" by (cases x)
  with single(1) have n: "n = TreeLeaf k (hash_object S v)"
    by (simp add: make_subtree_single)
  have "proof_walk res lookup_key n [TreeLeaf k (hash_object S v)] []"
    unfolding n by (rule walk_leaf)
  with x show ?case by force
next
  case (split its)
  let ?m = "length its div 2"
  from split(1) obtain l ls r rs cp where
    l: "make_subtree P S (take ?m its) = Inr (l # ls)" and
    r: "make_subtree P S (drop ?m its) = Inr (r # rs)" and
    cp: "commonprefix [fst (its ! ?m), get_node_key l, get_node_key r] = Inr cp" and
    res: "make_subtree P S its =
       Inr (TreeNode (take (max 1 (length cp + 1)) (fst (its ! ?m)))
              (Some (hash_object S (encode P l))) (Some (hash_object S (encode P r)))
            # (l # ls) @ (r # rs))"
    by (rule make_subtree_unfold)
  let ?pv = "take (max 1 (length cp + 1)) (fst (its ! ?m))"
  let ?lh = "Some (hash_object S (encode P l))"
  let ?rh = "Some (hash_object S (encode P r))"
  from res split.prems(1) have n: "n = TreeNode ?pv ?lh ?rh" and ns: "ns = (l # ls) @ (r # rs)"
    by simp_all
  have subl: "set (l # ls) \<subseteq> set (n # ns)" and subr: "set (r # rs) \<subseteq> set (n # ns)"
    unfolding ns by auto
  have rl: "resolve_opt res ?lh = Inr (Some l)"
    using split.prems(2) [of l] subl assms(4) by (simp add: resolve_opt_def)
  have rr: "resolve_opt res ?rh = Inr (Some r)"
    using split.prems(2) [of r] subr assms(4) by (simp add: resolve_opt_def)
  show ?case
  proof (cases "lookup_key < ?pv")
    case True
    have "\<exists>path closure k v. proof_walk res lookup_key l path closure \<and> path \<noteq> []
           \<and> last path = TreeLeaf k (hash_object S v) \<and> (k, v) \<in> set (take ?m its)"
      using l
    proof (rule split.IH(1))
      fix nd assume "nd \<in> set (l # ls)"
      with subl show "res (hash_object S (encode P nd)) = Inr (Some nd)"
        by (intro split.prems(2)) auto
    qed
    then obtain path closure k v where
      w: "proof_walk res lookup_key l path closure" and p: "path \<noteq> []"
      and la: "last path = TreeLeaf k (hash_object S v)" and kv: "(k, v) \<in> set (take ?m its)"
      by blast
    from walk_left [OF True rl rr w]
    have "proof_walk res lookup_key n (n # path) (opt_list (Some r) @ closure)"
      unfolding n .
    moreover from p la have "last (n # path) = TreeLeaf k (hash_object S v)" by simp
    moreover from kv have "(k, v) \<in> set its" by (rule in_set_takeD)
    ultimately show ?thesis by blast
  next
    case False
    have "\<exists>path closure k v. proof_walk res lookup_key r path closure \<and> path \<noteq> []
           \<and> last path = TreeLeaf k (hash_object S v) \<and> (k, v) \<in> set (drop ?m its)"
      using r
    proof (rule split.IH(2))
      fix nd assume "nd \<in> set (r # rs)"
      with subr show "res (hash_object S (encode P nd)) = Inr (Some nd)"
        by (intro split.prems(2)) auto
    qed
    then obtain path closure k v where
      w: "proof_walk res lookup_key r path closure" and p: "path \<noteq> []"
      and la: "last path = TreeLeaf k (hash_object S v)" and kv: "(k, v) \<in> set (drop ?m its)"
      by blast
    from walk_right [OF False rl rr w]
    have "proof_walk res lookup_key n (n # path) (opt_list (Some l) @ closure)"
      unfolding n .
    moreover from p la have "last (n # path) = TreeLeaf k (hash_object S v)" by simp
    moreover from kv have "(k, v) \<in> set its" by (rule in_set_dropD)
    ultimately show ?thesis by blast
  qed
qed

lemma walk_gives_proof:
  assumes r: "resolve P self (root self) = Inr (Some r)"
    and w: "proof_walk (resolve P self) lookup_key r path closure"
  shows "\<exists>self'. get_inclusion_proof P self lookup_key = Some (Inr (path, closure), self')
           \<and> object_store self' = object_store self"
proof -
  obtain r0 T1 where c: "get_node_by_hash P self (root self) = (r0, T1)"
    by (cases "get_node_by_hash P self (root self)")
  note v = get_node_by_hash_view [OF c]
  from v r have r0: "r0 = Inr (Some r)" by simp
  from proof_loop_complete [OF w v(4), of "[]" "[]"] obtain T' where
    l: "proof_loop P lookup_key T1 (Some r) [] [] = Some (Inr (path, closure), T')" by auto
  from proof_loop_sound [OF l] v(2) have "object_store T' = object_store self" by auto
  with l c r0 show ?thesis
    by (simp add: get_inclusion_proof_def root_node_def)
qed

text \<open>
  Claim C6. Let the hash of the store have no collisions and never be empty, and let the
  codec decode what it encodes. In a tree returned by \<open>commit\<close>, the traversal for any
  lookup key returns a path that ends in a leaf; \<open>__getitem__\<close> returns a payload exactly
  when the key of that leaf is the lookup key; and for a key that was never staged the
  key of that leaf differs from the lookup key and \<open>__getitem__\<close> raises \<open>KeyError\<close>.
\<close>

theorem lookup_of_absent_key_fails:
  assumes inj: "inj (hash_object (b_object_store self))"
    and ne: "\<And>b. hash_object (b_object_store self) b \<noteq> []"
    and rt: "\<And>n. decode P (encode P n) = Inr n"
    and c: "commit P self = (Inr t, self')"
  shows "\<exists>path closure k ph t'.
           get_inclusion_proof P t lookup_key = Some (Inr (path, closure), t')
         \<and> path \<noteq> [] \<and> last path = TreeLeaf k ph
         \<and> ((\<exists>v. getitem P t lookup_key = Some (Inr v, t')) \<longleftrightarrow> k = lookup_key)
         \<and> (lookup_key \<notin> fst ` set (items self) \<longrightarrow>
              k \<noteq> lookup_key \<and> getitem P t lookup_key = Some (Inl KeyError, t'))"
proof -
  let ?S = "b_object_store self"
  from c have "items self \<noteq> []" by (rule commit_Inr_nonempty)
  then obtain n ns where
    m: "make_subtree P ?S (sort_key fst (items self)) = Inr (n # ns)" and
    cs: "commit P self =
       (Inr \<lparr>object_store = add_all (add_all ?S (map (encode P) (n # ns))) (map snd (items self)),
             root = hash_object ?S (encode P n),
             cache = Map.empty\<rparr>,
        self\<lparr>b_object_store := add_all (add_all ?S (map (encode P) (n # ns)))
                               (map snd (items self))\<rparr>)"
    by (rule commit_unfold [of self P])
  let ?xs = "map (encode P) (n # ns) @ map snd (items self)"
  from c cs have os: "object_store t = add_all ?S ?xs"
    and ro: "root t = hash_object ?S (encode P n)" and ca: "cache t = Map.empty"
    by (auto simp: add_all_append)
  have rs: "resolve P t (hash_object ?S (encode P nd)) = Inr (Some nd)" if "nd \<in> set (n # ns)" for nd
  proof (rule resolve_committed [OF inj _ rt os ca])
    from that show "encode P nd \<in> set ?xs" by auto
  qed
  from \<open>items self \<noteq> []\<close> have "sort_key fst (items self) \<noteq> []"
    by (metis length_sort length_0_conv)
  from make_subtree_walk [OF this m rs ne, of lookup_key] obtain path closure k v where
    w: "proof_walk (resolve P t) lookup_key n path closure" and p: "path \<noteq> []"
    and la: "last path = TreeLeaf k (hash_object ?S v)"
    and kv: "(k, v) \<in> set (sort_key fst (items self))"
    by auto
  from kv have kv': "(k, v) \<in> set (items self)" by simp
  have "resolve P t (root t) = Inr (Some n)" unfolding ro by (rule rs) simp
  from walk_gives_proof [OF this w] obtain t' where
    g: "get_inclusion_proof P t lookup_key = Some (Inr (path, closure), t')"
    and os': "object_store t' = object_store t" by blast
  from kv' have "v \<in> set ?xs" by force
  from add_all_backend [OF inj this]
  have sg: "store_get (object_store t') (hash_object ?S v) ch = Inr (Some v)" for ch
    by (simp add: store_get_def os' os)
  have gi: "getitem P t lookup_key =
      (if k = lookup_key then Some (Inr (Some v), t') else Some (Inl KeyError, t'))"
    using g p la sg by (simp add: getitem_def)
  have "(\<exists>v. getitem P t lookup_key = Some (Inr v, t')) \<longleftrightarrow> k = lookup_key"
    by (simp add: gi)
  moreover have "k \<noteq> lookup_key \<and> getitem P t lookup_key = Some (Inl KeyError, t')"
    if "lookup_key \<notin> fst ` set (items self)"
  proof -
    from kv' have "k \<in> fst ` set (items self)" by force
    with that have "k \<noteq> lookup_key" by auto
    with gi show ?thesis by simp
  qed
  ultimately show ?thesis using g p la by blast
qed


text \<open>The example codec decodes what it encodes, and the example hash is injective.\<close>

lemma read_str_replicate:
  "read_str n (replicate m (CHR ''1'') @ CHR ''0'' # t)
     = (if n + m \<le> length t then Some (take (n + m) t, drop (n + m) t) else None)"
  by (induction m arbitrary: n) simp_all

lemma read_str_enc_str: "read_str 0 (enc_str s @ t) = Some (s, t)"
  using read_str_replicate [of 0 "length s" "s @ t"] by simp

lemma read_opt_enc_opt: "read_opt (enc_opt h @ t) = Some (h, t)"
proof (cases h)
  case None
  then show ?thesis by simp
next
  case (Some x)
  have "read_opt (CHR ''+'' # enc_str x @ t) = Some (Some x, t)"
    by (simp add: read_str_enc_str del: enc_str.simps)
  with Some show ?thesis by simp
qed

lemma ex_decode_encode: "ex_decode (ex_encode n) = Inr n"
proof (cases n)
  case (TreeLeaf k ph)
  have "ex_decode (CHR ''L'' # enc_str k @ ph) = Inr (TreeLeaf k ph)"
    by (simp add: read_str_enc_str del: enc_str.simps)
  with TreeLeaf show ?thesis by simp
next
  case (TreeNode p lh rh)
  have "read_opt (enc_opt rh) = Some (rh, [])"
    using read_opt_enc_opt [of rh "[]"] by simp
  then have "ex_decode (CHR ''N'' # enc_str p @ enc_opt lh @ enc_opt rh) = Inr (TreeNode p lh rh)"
    by (simp add: read_str_enc_str read_opt_enc_opt del: enc_str.simps)
  with TreeNode show ?thesis by simp
qed

lemma ex_hash_inj: "inj ex_hash"
  by (rule injI) (simp add: ex_hash_def)

lemma ex_builder_store: "b_object_store ex_builder = ex_store"
  by (simp add: ex_builder_def stage_store)

theorem lookup_of_absent_key_fails_witness:
  "''zz'' \<notin> fst ` set (items ex_builder)
   \<and> (\<exists>path closure k ph t'.
          get_inclusion_proof ex_pack ex_tree ''zz'' = Some (Inr (path, closure), t')
        \<and> path \<noteq> [] \<and> last path = TreeLeaf k ph \<and> k \<noteq> ''zz''
        \<and> getitem ex_pack ex_tree ''zz'' = Some (Inl KeyError, t'))"
proof -
  have a: "''zz'' \<notin> fst ` set (items ex_builder)" by (simp add: ex_builder_items)
  have i: "inj (hash_object (b_object_store ex_builder))"
    using ex_hash_inj by (simp add: ex_builder_store ex_store_def)
  have n: "hash_object (b_object_store ex_builder) b \<noteq> []" for b
    by (simp add: ex_builder_store ex_store_def ex_hash_def)
  have d: "decode ex_pack (encode ex_pack n) = Inr n" for n
    by (simp add: ex_pack_def ex_decode_encode)
  from lookup_of_absent_key_fails [OF i n d ex_commit, of "''zz''"] a
  show ?thesis by blast
qed

end
